theory Spec2Isabelle
  imports Main "HOL-Library.Sublist"
begin

section \<open>Strings and quote stripping\<close>

text \<open>
  A string of the program is a list of characters. The only character that the code
  singles out is the double quote of the regular expression in \<^verbatim>\<open>stripQuotes\<close>.
\<close>

definition dquote :: char where
  "dquote = CHR 0x22"

text \<open>
  \<^verbatim>\<open>text.replace(/^"|"$/g, "")\<close>: a global replace scans the text from left to right.
  At each position the alternation is tried: \<^verbatim>\<open>^"\<close> matches a quote at the very start
  of the text, \<^verbatim>\<open>"$\<close> matches a quote that is the last character of the text (there is
  no \<^verbatim>\<open>m\<close> flag). A match is replaced by the empty string and the scan goes on behind
  it; any other character is copied. The flag \<open>at_start\<close> says whether the scan is at
  position 0.
\<close>

fun replace_scan :: "bool \<Rightarrow> string \<Rightarrow> string" where
  "replace_scan at_start [] = []"
| "replace_scan at_start (c # cs) =
     (if c = dquote \<and> (at_start \<or> cs = []) then replace_scan False cs
      else c # replace_scan False cs)"

definition stripQuotes :: "string \<Rightarrow> string" where
  "stripQuotes text = replace_scan True text"


section \<open>Numbers of the command line\<close>

text \<open>
  A JavaScript value that is a number or \<^verbatim>\<open>undefined\<close>. Numbers are integers here (the
  result caps of the command line); \<open>PosInfinity\<close> is the one non-integer that
  \<^verbatim>\<open>Math.floor(T / 0)\<close> can produce from an integer \<open>T\<close> that is not zero.
\<close>

datatype num = Undefined | Num int | PosInfinity

text \<open>
  The numbers of the language are IEEE doubles. On the safe integers, those of magnitude
  below \<open>2 ^ 53\<close>, a double holds the integer itself, \<^verbatim>\<open>Math.floor(T / k)\<close> is the
  integer quotient rounded down, and the text of the number is its decimal digits. From
  \<open>2 ^ 53\<close> on none of this holds: the quotient is rounded before it is floored, and the
  text has padding zeros or an exponent.
\<close>

definition safe_integer :: "int \<Rightarrow> bool" where
  "safe_integer i = (\<bar>i\<bar> < 2 ^ 53)"

text \<open>
  The built-ins of the language that the program calls and that are parameters here:
  \<open>encodeURIComponent\<close>, which on a well-formed string does not throw;
  \<open>floor_quotient T k\<close>, which stands for \<^verbatim>\<open>Math.floor(T / k)\<close> in double arithmetic; and
  \<open>number_text n\<close>, which stands for the text of \<open>n\<close> in a template literal. The last two
  are consulted outside the safe integers only.
\<close>

record builtins =
  encodeURIComponent :: "string \<Rightarrow> string"
  floor_quotient :: "int \<Rightarrow> nat \<Rightarrow> int"
  number_text :: "int \<Rightarrow> string"

fun truthy_num :: "num \<Rightarrow> bool" where
  "truthy_num Undefined = False"
| "truthy_num (Num n) = (n \<noteq> 0)"
| "truthy_num PosInfinity = True"

text \<open>
  Lines 71 to 73 of \<^verbatim>\<open>main\<close>:
  \<^verbatim>\<open>options.maxResults && Math.max(3, Math.floor(options.maxResults / queries.length))\<close>.
  The operator \<^verbatim>\<open>&&\<close> gives its left operand when that is falsy (\<^verbatim>\<open>undefined\<close> or 0).
  With no query in the array the division is by zero and gives an infinity. The length
  \<open>k\<close> of an array is below \<open>2 ^ 32\<close>.
\<close>

definition maxResults_per_query :: "builtins \<Rightarrow> int option \<Rightarrow> nat \<Rightarrow> num" where
  "maxResults_per_query js requested k =
     (case requested of
        None \<Rightarrow> Undefined
      | Some T \<Rightarrow>
          if T = 0 then Num 0
          else if k = 0 then (if 0 < T then PosInfinity else Num 3)
          else if safe_integer T then Num (max 3 (T div int k))
          else Num (max 3 (floor_quotient js T k)))"

text \<open>\<^verbatim>\<open>options.maxResults || 10\<close> in \<^verbatim>\<open>search\<close> (line 124).\<close>

definition num_param :: "num \<Rightarrow> num" where
  "num_param m = (if truthy_num m then m else Num 10)"

text \<open>
  The text that a template literal gives for a number: the decimal digits for a safe
  integer, what the built-in gives for any other.
\<close>

fun show_nat :: "nat \<Rightarrow> string" where
  "show_nat n =
     (if n < 10 then [''0123456789'' ! n]
      else show_nat (n div 10) @ [''0123456789'' ! (n mod 10)])"

declare show_nat.simps [simp del]

definition decimal :: "int \<Rightarrow> string" where
  "decimal i = (if i < 0 then CHR ''-'' # show_nat (nat (- i)) else show_nat (nat i))"

definition show_int :: "builtins \<Rightarrow> int \<Rightarrow> string" where
  "show_int js i = (if safe_integer i then decimal i else number_text js i)"

fun show_num :: "builtins \<Rightarrow> num \<Rightarrow> string" where
  "show_num js Undefined = ''undefined''"
| "show_num js (Num n) = show_int js n"
| "show_num js PosInfinity = ''Infinity''"

text \<open>The search address of lines 122 to 124.\<close>

definition search_url :: "builtins \<Rightarrow> string \<Rightarrow> num \<Rightarrow> string" where
  "search_url js q m =
     ''https://www.google.com/search?q='' @ encodeURIComponent js (stripQuotes q)
       @ ''&num='' @ show_num js (num_param m)"

section \<open>Candidate links\<close>

record SearchResult =
  title :: string
  url :: string
  content :: "string option"

text \<open>
  What the callback of lines 135 to 147 reads of one \<^verbatim>\<open>.g\<close> container: the text of its
  first \<^verbatim>\<open>h3\<close> (\<open>None\<close> when it has none), and its first \<^verbatim>\<open>a\<close> (\<open>None\<close> when it has
  none) with the value of the \<^verbatim>\<open>href\<close> attribute (\<open>None\<close> when the attribute is absent).
\<close>

record element =
  h3_textContent :: "string option"
  a_href :: "string option option"

text \<open>\<^verbatim>\<open>x || ""\<close> for a string that may be \<^verbatim>\<open>null\<close> or \<^verbatim>\<open>undefined\<close>.\<close>

fun or_empty :: "string option \<Rightarrow> string" where
  "or_empty None = []"
| "or_empty (Some s) = s"

definition item_of :: "element \<Rightarrow> SearchResult" where
  "item_of el =
     \<lparr> title = or_empty (h3_textContent el),
       url = or_empty (case a_href el of None \<Rightarrow> None | Some h \<Rightarrow> h),
       content = None \<rparr>"

text \<open>The \<^verbatim>\<open>forEach\<close> of lines 135 to 147, with the array \<^verbatim>\<open>links\<close> it pushes to.\<close>

fun forEach_push :: "element list \<Rightarrow> SearchResult list \<Rightarrow> SearchResult list" where
  "forEach_push [] links = links"
| "forEach_push (el # els) links =
     (let item = item_of el
      in if title item = [] \<or> url item = [] then forEach_push els links
         else forEach_push els (links @ [item]))"

definition extract_links :: "element list \<Rightarrow> SearchResult list" where
  "extract_links els = forEach_push els []"


section \<open>Pages, promises and the outside world\<close>

text \<open>What an awaited call can throw, and the error of line 63.\<close>

datatype failure =
    MissingQuery
  | LaunchFailed
  | NewPageFailed
  | InterceptFailed
  | GotoFailed
  | AddScriptTagFailed
  | EvaluateFailed
  | CloseFailed
  | DisposeFailed

text \<open>
  The calls that a visit issues for its own page, in the order of the source. The variable
  \<^verbatim>\<open>page\<close> is local to \<^verbatim>\<open>search\<close> and to \<^verbatim>\<open>visitLink\<close> and never escapes, so each
  visit has a log of its own. \<open>Intercept\<close> stands for the whole of \<^verbatim>\<open>interceptRequest\<close>.
\<close>

datatype page_event = NewPage | Intercept | Goto string | AddScriptTag | Evaluate | Close

datatype console_line =
    LinksLine string "SearchResult list"
  | ResultsLine string "SearchResult option list"
  | ContentLine string

text \<open>
  A settled promise: the logical time at which it settles, its outcome (\<open>Inl\<close> when it
  rejects), and what the task behind it did on the way: the calls on its page and the
  lines it printed.
\<close>

record 'a promise =
  settled_at :: nat
  status :: "failure + 'a"
  page_log :: "page_event list"
  console :: "console_line list"

text \<open>
  The browser and the network are outside the program. A \<open>page_world\<close> says, for one
  visit, which of the awaited calls throw and how long the visit takes until it settles.
\<close>

record page_world =
  newPage_ok :: bool
  intercept_ok :: bool
  goto_ok :: bool
  addScriptTag_ok :: bool
  evaluate_ok :: bool
  close_ok :: bool
  took :: nat

text \<open>What \<^verbatim>\<open>new Readability(document).parse()\<close> returns when it is not \<^verbatim>\<open>null\<close>.\<close>

record article =
  article_content :: "string option"
  article_title :: "string option"

text \<open>
  A link visit also depends on what Readability finds, on the title of the document and on
  how long the task waits in the queue before it starts.
\<close>

record visit_world = page_world +
  readability :: "article option"
  document_title :: string
  queue_wait :: nat

text \<open>
  A search visit depends on the \<^verbatim>\<open>.g\<close> containers of the result page and on the world
  of the visit to each candidate link, by position.
\<close>

record search_world = page_world +
  elements :: "element list"
  link_world :: "nat \<Rightarrow> visit_world"

section \<open>Visiting a link\<close>

text \<open>The callback of lines 198 to 213, after the noise has been removed.\<close>

definition evaluate_article :: "article option \<Rightarrow> string \<Rightarrow> string \<times> string" where
  "evaluate_article parsed doc_title =
     (let c = or_empty (case parsed of None \<Rightarrow> None | Some a \<Rightarrow> article_content a);
          t = or_empty (case parsed of None \<Rightarrow> None | Some a \<Rightarrow> article_title a)
      in (c, if t = [] then doc_title else t))"

text \<open>
  \<^verbatim>\<open>visitLink\<close> (lines 185 to 220), started at time \<open>start\<close>. \<open>toMarkdown\<close> is imported
  from a module outside this file and is a parameter, taken to be a pure function. Every
  awaited call can throw; the function has no \<^verbatim>\<open>try\<close>, so a throw ends it at once.
  The log holds the calls issued so far, the one that threw included.
\<close>

definition visitLink ::
  "(string \<Rightarrow> string) \<Rightarrow> visit_world \<Rightarrow> string \<Rightarrow> nat \<Rightarrow> SearchResult promise" where
  "visitLink toMarkdown w href start =
     (let t = start + took w;
          rejected = (\<lambda>e calls.
            \<lparr> settled_at = t, status = Inl e, page_log = calls, console = [] \<rparr>)
      in if \<not> newPage_ok w then rejected NewPageFailed [NewPage]
         else if \<not> intercept_ok w then rejected InterceptFailed [NewPage, Intercept]
         else if \<not> goto_ok w then rejected GotoFailed [NewPage, Intercept, Goto href]
         else if \<not> addScriptTag_ok w then
           rejected AddScriptTagFailed [NewPage, Intercept, Goto href, AddScriptTag]
         else if \<not> evaluate_ok w then
           rejected EvaluateFailed [NewPage, Intercept, Goto href, AddScriptTag, Evaluate]
         else if \<not> close_ok w then
           rejected CloseFailed [NewPage, Intercept, Goto href, AddScriptTag, Evaluate, Close]
         else
           (let result = evaluate_article (readability w) (document_title w);
                c = toMarkdown (fst result)
            in \<lparr> settled_at = t,
                 status = Inr \<lparr> title = snd result, url = href, content = Some c \<rparr>,
                 page_log = [NewPage, Intercept, Goto href, AddScriptTag, Evaluate, Close],
                 console = [ContentLine c] \<rparr>))"

section \<open>The pipeline of one query\<close>

text \<open>
  \<^verbatim>\<open>options.queue.add(() => visitLink(context, item.url))\<close>: the queue starts the task
  after some wait and hands its settlement through. The ceiling of the queue
  (\<^verbatim>\<open>options.concurrency || 15\<close>) only decides how long a task waits, and the wait is
  given by the world.
\<close>

definition queue_add ::
  "(string \<Rightarrow> string) \<Rightarrow> visit_world \<Rightarrow> string \<Rightarrow> nat \<Rightarrow> SearchResult promise" where
  "queue_add toMarkdown w href now = visitLink toMarkdown w href (now + queue_wait w)"

text \<open>
  \<^verbatim>\<open>Promise.allSettled\<close> never rejects: it settles when the last of the promises has
  settled, with their outcomes in the order of the array it was given.
\<close>

definition allSettled_at :: "nat \<Rightarrow> 'a promise list \<Rightarrow> nat" where
  "allSettled_at now ps = fold max (map settled_at ps) now"

text \<open>
  Lines 165 to 167: a rejected outcome becomes \<^verbatim>\<open>null\<close>, and the filter keeps the
  entries whose \<^verbatim>\<open>content\<close> is truthy.
\<close>

fun fulfilled_value :: "'a promise \<Rightarrow> 'a option" where
  "fulfilled_value item = (case status item of Inr v \<Rightarrow> Some v | Inl e \<Rightarrow> None)"

fun truthy_content :: "SearchResult option \<Rightarrow> bool" where
  "truthy_content None = False"
| "truthy_content (Some v) = (case content v of None \<Rightarrow> False | Some c \<Rightarrow> c \<noteq> [])"

definition final_results :: "SearchResult promise list \<Rightarrow> SearchResult option list" where
  "final_results finalResults = filter truthy_content (map fulfilled_value finalResults)"

record pipeline = "unit promise" +
  tasks :: "SearchResult promise list"

text \<open>
  \<^verbatim>\<open>search\<close> (lines 115 to 170), started at time \<open>start\<close>. The page of the search visit is
  opened, set up, sent to the search address and evaluated; the function never calls
  \<^verbatim>\<open>close\<close> on it.
\<close>

definition search ::
  "builtins \<Rightarrow> (string \<Rightarrow> string) \<Rightarrow> search_world \<Rightarrow> string \<Rightarrow> num \<Rightarrow> nat
     \<Rightarrow> pipeline" where
  "search js toMarkdown w q m start =
     (let t = start + took w;
          target = search_url js q m;
          rejected = (\<lambda>e calls.
            \<lparr> settled_at = t, status = Inl e, page_log = calls, console = [], tasks = [] \<rparr>)
      in if \<not> newPage_ok w then rejected NewPageFailed [NewPage]
         else if \<not> intercept_ok w then rejected InterceptFailed [NewPage, Intercept]
         else if \<not> goto_ok w then rejected GotoFailed [NewPage, Intercept, Goto target]
         else if \<not> evaluate_ok w then
           rejected EvaluateFailed [NewPage, Intercept, Goto target, Evaluate]
         else
           (let links = extract_links (elements w);
                finalResults =
                  map (\<lambda>(i, item). queue_add toMarkdown (link_world w i) (url item) t)
                    (enumerate 0 links)
            in \<lparr> settled_at = allSettled_at t finalResults,
                 status = Inr (),
                 page_log = [NewPage, Intercept, Goto target, Evaluate],
                 console = [LinksLine q links, ResultsLine q (final_results finalResults)],
                 tasks = finalResults \<rparr>))"

section \<open>The run\<close>

text \<open>\<^verbatim>\<open>options.query\<close> is absent, one string, or an array of strings.\<close>

datatype query_arg = NoQuery | OneQuery string | ManyQueries "string list"

record options =
  query :: query_arg
  concurrency :: "nat option"
  show_browser :: "bool option"
  maxResults :: "int option"
  browser :: "string option"

text \<open>\<^verbatim>\<open>!options.query\<close>: absent and the empty string are falsy, every array is truthy.\<close>

fun falsy_query :: "query_arg \<Rightarrow> bool" where
  "falsy_query NoQuery = True"
| "falsy_query (OneQuery q) = (q = [])"
| "falsy_query (ManyQueries qs) = False"

fun queries_of :: "query_arg \<Rightarrow> string list" where
  "queries_of NoQuery = []"
| "queries_of (OneQuery q) = [q]"
| "queries_of (ManyQueries qs) = qs"

text \<open>
  The world of a run: whether the launch and the release of the browser throw, how long
  the launch takes, and the world of the search visit of each query, by position. Time is
  logical: a natural number that only orders the settlements. The worlds of the visits
  are given independently of the moment at which the browser is closed; what a visit
  that is still in flight at that moment does afterwards is not modelled.
\<close>

record world =
  launch_ok :: bool
  launch_took :: nat
  dispose_ok :: bool
  pipeline_world :: "nat \<Rightarrow> search_world"

datatype browser_event = Launch | CloseBrowser

text \<open>
  \<^verbatim>\<open>Promise.all\<close> rejects as soon as one of the promises rejects, with the reason of the
  earliest rejection, and does not wait for the others; it fulfils when all have
  fulfilled.
\<close>

definition rejections :: "pipeline list \<Rightarrow> (nat \<times> failure) list" where
  "rejections ps =
     concat (map (\<lambda>p. case status p of Inl e \<Rightarrow> [(settled_at p, e)] | Inr v \<Rightarrow> []) ps)"

fun earliest :: "(nat \<times> failure) \<Rightarrow> (nat \<times> failure) list \<Rightarrow> (nat \<times> failure)" where
  "earliest r [] = r"
| "earliest r (r' # rs) = earliest (if fst r' < fst r then r' else r) rs"

definition Promise_all :: "nat \<Rightarrow> pipeline list \<Rightarrow> nat \<times> (failure + unit)" where
  "Promise_all now ps =
     (case rejections ps of
        [] \<Rightarrow> (fold max (map settled_at ps) now, Inr ())
      | r # rs \<Rightarrow> (fst (earliest r rs), Inl (snd (earliest r rs))))"

record run =
  exitCode :: "nat option"
  browser_log :: "(nat \<times> browser_event) list"
  pipelines :: "pipeline list"

text \<open>
  The action of the \<^verbatim>\<open>search\<close> command (lines 55 to 92), started at time 0, with what
  it throws. The browser is bound by \<^verbatim>\<open>await using\<close>: when the block is left, by
  completion or by a throw, \<^verbatim>\<open>context.close()\<close> is called once. A launch that throws
  binds nothing.
\<close>

definition action ::
  "builtins \<Rightarrow> (string \<Rightarrow> string) \<Rightarrow> world \<Rightarrow> options
     \<Rightarrow> (failure + unit) \<times> (nat \<times> browser_event) list \<times> pipeline list" where
  "action js toMarkdown w opts =
     (if falsy_query (query opts) then (Inl MissingQuery, [], [])
      else
        (let queries = queries_of (query opts);
             m = maxResults_per_query js (maxResults opts) (length queries)
         in if \<not> launch_ok w then (Inl LaunchFailed, [(0, Launch)], [])
            else
              (let t = launch_took w;
                   ps = map (\<lambda>(i, q).
                          search js toMarkdown (pipeline_world w i) q m t)
                        (enumerate 0 queries);
                   body = Promise_all t ps;
                   log = [(0, Launch), (fst body, CloseBrowser)]
               in if \<not> dispose_ok w then (Inl DisposeFailed, log, ps)
                  else (snd body, log, ps))))"

text \<open>
  \<^verbatim>\<open>main\<close> (lines 97 to 110) for an invocation that the argument parser matches to the
  \<^verbatim>\<open>search\<close> command with the options \<open>opts\<close>: whatever the action throws is caught
  and sets \<^verbatim>\<open>process.exitCode\<close> to 1; otherwise the exit code is left unset.
\<close>

definition main ::
  "builtins \<Rightarrow> (string \<Rightarrow> string) \<Rightarrow> world \<Rightarrow> options \<Rightarrow> run" where
  "main js toMarkdown w opts =
     (case action js toMarkdown w opts of
        (Inl e, log, ps) \<Rightarrow> \<lparr> exitCode = Some 1, browser_log = log, pipelines = ps \<rparr>
      | (Inr v, log, ps) \<Rightarrow> \<lparr> exitCode = None, browser_log = log, pipelines = ps \<rparr>)"

text \<open>The exit code of the process: 0 when \<^verbatim>\<open>process.exitCode\<close> was never set.\<close>

definition exit_status :: "run \<Rightarrow> nat" where
  "exit_status r = (case exitCode r of None \<Rightarrow> 0 | Some c \<Rightarrow> c)"


section \<open>Sample inputs\<close>

text \<open>
  Concrete worlds and options on which the theorems below are run: built-ins that leave
  a string of letters as it is (the sample runs stay within the safe integers, so the
  other two are never consulted and are given no meaning), a link visit and a
  search visit on which every call succeeds, a result page with six containers of which
  three are complete, a search visit whose first link does not load and whose second link
  has nothing readable, a world in which the search visit of the first query does not
  load, a world in which the first link of the first query does not load, and a run with
  two queries and a requested total of ten results.
\<close>

definition plain_js :: builtins where
  "plain_js =
     \<lparr> encodeURIComponent = (\<lambda>s. s), floor_quotient = (\<lambda>T k. 0), number_text = (\<lambda>n. []) \<rparr>"

definition fine_visit :: visit_world where
  "fine_visit =
     \<lparr> newPage_ok = True, intercept_ok = True, goto_ok = True, addScriptTag_ok = True,
       evaluate_ok = True, close_ok = True, took = 3,
       readability = Some \<lparr> article_content = Some ''text'', article_title = None \<rparr>,
       document_title = ''doc'', queue_wait = 1 \<rparr>"

definition sample_elements :: "element list" where
  "sample_elements =
     [\<lparr> h3_textContent = Some ''first'', a_href = Some (Some ''u'') \<rparr>,
      \<lparr> h3_textContent = Some [], a_href = Some (Some ''x'') \<rparr>,
      \<lparr> h3_textContent = Some ''third'', a_href = Some None \<rparr>,
      \<lparr> h3_textContent = Some ''fourth'', a_href = Some (Some ''v'') \<rparr>,
      \<lparr> h3_textContent = None, a_href = None \<rparr>,
      \<lparr> h3_textContent = Some ''sixth'', a_href = Some (Some ''w'') \<rparr>]"

definition fine_search :: search_world where
  "fine_search =
     \<lparr> newPage_ok = True, intercept_ok = True, goto_ok = True, addScriptTag_ok = True,
       evaluate_ok = True, close_ok = True, took = 2,
       elements = sample_elements, link_world = (\<lambda>i. fine_visit) \<rparr>"

definition mixed_search :: search_world where
  "mixed_search =
     fine_search \<lparr> link_world :=
       (\<lambda>i. if i = 0 then fine_visit \<lparr> goto_ok := False, took := 9 \<rparr>
            else if i = 1 then fine_visit \<lparr> readability := None \<rparr>
            else fine_visit) \<rparr>"

definition fine_world :: world where
  "fine_world =
     \<lparr> launch_ok = True, launch_took = 1, dispose_ok = True,
       pipeline_world = (\<lambda>i. fine_search) \<rparr>"

definition failing_first_world :: world where
  "failing_first_world =
     fine_world \<lparr> pipeline_world :=
       (\<lambda>i. if i = 0 then fine_search \<lparr> goto_ok := False, took := 1 \<rparr> else fine_search) \<rparr>"

definition first_link_fails_world :: world where
  "first_link_fails_world =
     fine_world \<lparr> pipeline_world := (pipeline_world fine_world)
       (0 := (pipeline_world fine_world 0)
          \<lparr> link_world := (link_world (pipeline_world fine_world 0))
               (0 := fine_visit \<lparr> goto_ok := False \<rparr>) \<rparr>) \<rparr>"

definition sample_options :: options where
  "sample_options =
     \<lparr> query = ManyQueries [''a'', ''b''], concurrency = None, show_browser = None,
       maxResults = Some 10, browser = None \<rparr>"

section \<open>Quote stripping: what one application removes\<close>

lemma replace_scan_False:
  "replace_scan False cs = (if cs \<noteq> [] \<and> last cs = dquote then butlast cs else cs)"
  by (induction cs) auto

lemma stripQuotes_Nil: "stripQuotes [] = []"
  by (simp add: stripQuotes_def)

lemma stripQuotes_Cons:
  "stripQuotes (c # cs) =
     (if c = dquote then replace_scan False cs else replace_scan False (c # cs))"
  by (simp add: stripQuotes_def)

lemma length_replace_scan_False: "length (replace_scan False cs) \<le> length cs"
  by (simp add: replace_scan_False)

lemma stripQuotes_fixpoint:
  "stripQuotes t = t \<longleftrightarrow> (t \<noteq> [] \<longrightarrow> hd t \<noteq> dquote \<and> last t \<noteq> dquote)"
proof (cases t)
  case Nil
  then show ?thesis by (simp add: stripQuotes_Nil)
next
  case (Cons c cs)
  show ?thesis
  proof (cases "c = dquote")
    case True
    have "length (stripQuotes t) \<le> length cs"
      using Cons True by (simp add: stripQuotes_Cons length_replace_scan_False)
    then have "stripQuotes t \<noteq> t" using Cons by auto
    then show ?thesis using Cons True by simp
  next
    case False
    have "stripQuotes t = (if last t = dquote then butlast t else t)"
      using Cons False by (simp add: stripQuotes_Cons replace_scan_False)
    moreover have "butlast t \<noteq> t" using Cons by (metis length_butlast length_Cons diff_Suc_1 n_not_Suc_n)
    ultimately show ?thesis using Cons False by auto
  qed
qed

text \<open>
  Claim C3 says that stripping twice is the same as stripping once, for every string.
  One application removes one quote at each end only, so a word inside two layers of
  quotes loses one layer with each application.
\<close>

theorem stripQuotes_twice_counterexample:
  "stripQuotes (stripQuotes [dquote, dquote, CHR ''a'', dquote, dquote])
     \<noteq> stripQuotes [dquote, dquote, CHR ''a'', dquote, dquote]"
  by (simp add: stripQuotes_def dquote_def)

text \<open>
  Claim C3, amended: stripping a second time changes nothing exactly when the string
  stripped once neither begins nor ends with a double quote.
\<close>

theorem stripQuotes_twice_iff:
  "stripQuotes (stripQuotes s) = stripQuotes s \<longleftrightarrow>
     (stripQuotes s \<noteq> [] \<longrightarrow> hd (stripQuotes s) \<noteq> dquote \<and> last (stripQuotes s) \<noteq> dquote)"
  by (rule stripQuotes_fixpoint)

theorem stripQuotes_twice_iff_witness:
  "stripQuotes [dquote, CHR ''a'', dquote] \<noteq> []
   \<and> hd (stripQuotes [dquote, CHR ''a'', dquote]) \<noteq> dquote
   \<and> last (stripQuotes [dquote, CHR ''a'', dquote]) \<noteq> dquote
   \<and> stripQuotes (stripQuotes [dquote, CHR ''a'', dquote]) = stripQuotes [dquote, CHR ''a'', dquote]"
  using stripQuotes_twice_iff [of "[dquote, CHR ''a'', dquote]"]
  by (simp add: stripQuotes_def dquote_def)

text \<open>
  Claim C10: one application of \<open>stripQuotes\<close> removes at most one double quote at the
  start and at most one at the end, and nothing else: the text is the result between a
  prefix and a suffix that are each empty or a single double quote. So the result is a
  contiguous part of the text, and quotes inside it, or a second quote at either end,
  stay.
\<close>

theorem stripQuotes_substring:
  "\<exists>p q. s = p @ stripQuotes s @ q \<and> (p = [] \<or> p = [dquote]) \<and> (q = [] \<or> q = [dquote])"
proof (cases s)
  case Nil
  then show ?thesis by (simp add: stripQuotes_Nil)
next
  case (Cons c cs)
  have tail: "\<exists>q. xs = replace_scan False xs @ q \<and> (q = [] \<or> q = [dquote])" for xs
  proof (cases "xs \<noteq> [] \<and> last xs = dquote")
    case True
    then have "xs = butlast xs @ [dquote]" by (metis append_butlast_last_id)
    then have "xs = replace_scan False xs @ [dquote]"
      using True by (simp add: replace_scan_False)
    then show ?thesis by blast
  next
    case False
    then show ?thesis by (auto simp add: replace_scan_False)
  qed
  show ?thesis
  proof (cases "c = dquote")
    case True
    obtain q where "cs = replace_scan False cs @ q" "q = [] \<or> q = [dquote]"
      using tail by blast
    then have "s = [dquote] @ stripQuotes s @ q"
      using Cons True by (simp add: stripQuotes_Cons)
    then show ?thesis using \<open>q = [] \<or> q = [dquote]\<close> by blast
  next
    case False
    obtain q where "s = replace_scan False s @ q" "q = [] \<or> q = [dquote]"
      using tail by blast
    then have "s = [] @ stripQuotes s @ q"
      using Cons False by (simp add: stripQuotes_Cons)
    then show ?thesis using \<open>q = [] \<or> q = [dquote]\<close> by blast
  qed
qed

section \<open>The per-query cap and the search address\<close>

lemma action_pipelines:
  assumes "\<not> falsy_query (query opts)" and "launch_ok w"
  shows "snd (snd (action enc tm w opts)) =
     map (\<lambda>(i, q). search enc tm (pipeline_world w i) q
            (maxResults_per_query enc (maxResults opts) (length (queries_of (query opts))))
            (launch_took w))
       (enumerate 0 (queries_of (query opts)))"
  using assms by (simp add: action_def Let_def)

lemma pipelines_main: "pipelines (main enc tm w opts) = snd (snd (action enc tm w opts))"
  by (simp add: main_def split: prod.splits sum.splits)

lemma browser_log_main: "browser_log (main enc tm w opts) = fst (snd (action enc tm w opts))"
  by (simp add: main_def split: prod.splits sum.splits)

lemma exitCode_main:
  "exitCode (main enc tm w opts) =
     (if isl (fst (action enc tm w opts)) then Some 1 else None)"
  by (simp add: main_def split: prod.splits sum.splits)

lemma length_pipelines_main:
  assumes "\<not> falsy_query (query opts)" and "launch_ok w"
  shows "length (pipelines (main enc tm w opts)) = length (queries_of (query opts))"
  using assms by (simp add: pipelines_main action_pipelines)

lemma nth_pipelines_main:
  assumes "\<not> falsy_query (query opts)" and "launch_ok w"
    and "i < length (queries_of (query opts))"
  shows "pipelines (main enc tm w opts) ! i =
     search enc tm (pipeline_world w i) (queries_of (query opts) ! i)
       (maxResults_per_query enc (maxResults opts) (length (queries_of (query opts))))
       (launch_took w)"
  using assms by (simp add: pipelines_main action_pipelines nth_enumerate_eq)

lemma safe_quotient:
  assumes "safe_integer T" and "1 \<le> k"
  shows "safe_integer (max 3 (T div int k))"
proof -
  have k: "0 < int k" "1 \<le> int k" using assms(2) by simp_all
  have T: "T < 2 ^ 53"
    using assms(1) unfolding safe_integer_def by linarith
  have upper: "T div int k < 2 ^ 53"
  proof (cases "0 \<le> T")
    case True
    have "T div int k \<le> T div 1"
      using True k(2) by (intro zdiv_mono2) simp_all
    then have "T div int k \<le> T" by simp
    then show ?thesis using T by linarith
  next
    case False
    then have "T < 0" by simp
    then have "T div int k < 0"
      using pos_imp_zdiv_neg_iff [OF k(1), of T] by blast
    moreover have "(0::int) < 2 ^ 53" by simp
    ultimately show ?thesis by linarith
  qed
  have three: "(3::int) < 2 ^ 53" by simp
  have "0 \<le> max 3 (T div int k)" by linarith
  moreover have "max 3 (T div int k) < 2 ^ 53" using upper three by linarith
  ultimately show ?thesis unfolding safe_integer_def by linarith
qed

lemma num_param_per_query:
  assumes "1 \<le> k" and "\<forall>T. requested = Some T \<longrightarrow> safe_integer T"
  shows "num_param (maxResults_per_query js requested k) =
     Num (case requested of None \<Rightarrow> 10
          | Some T \<Rightarrow> if T = 0 then 10 else max 3 (T div int k))"
  using assms by (auto simp: num_param_def maxResults_per_query_def split: option.splits)

lemma safe_cap:
  assumes "1 \<le> k" and "\<forall>T. requested = Some T \<longrightarrow> safe_integer T"
  shows "safe_integer (case requested of None \<Rightarrow> 10
          | Some T \<Rightarrow> if T = 0 then 10 else max 3 (T div int k))"
proof (cases requested)
  case None
  then show ?thesis by (simp add: safe_integer_def)
next
  case (Some T)
  show ?thesis
  proof (cases "T = 0")
    case True
    then show ?thesis using Some by (simp add: safe_integer_def)
  next
    case False
    have "safe_integer T" using assms(2) Some by simp
    from safe_quotient [OF this assms(1)] show ?thesis using Some False by simp
  qed
qed

lemma goto_search_url:
  assumes "newPage_ok w" and "intercept_ok w"
  shows "Goto (search_url js q m) \<in> set (page_log (search js tm w q m t))"
  using assms by (simp add: search_def Let_def)

lemma unsafe_total_uses_builtin:
  "maxResults_per_query js (Some (2 ^ 54 + 4)) 3 = Num (max 3 (floor_quotient js (2 ^ 54 + 4) 3))"
  by (simp add: maxResults_per_query_def safe_integer_def)

text \<open>
  Claim C1 says that a requested total \<open>T\<close> always gives the per-query cap
  \<open>max 3 (T div k)\<close>. A requested total of 0 is falsy: line 72 passes it on as it is
  and line 124 replaces it by 10, where the claim gives 3.
\<close>

theorem zero_cap_counterexample:
  "search_url plain_js ''a'' (maxResults_per_query plain_js (Some 0) 1)
     = ''https://www.google.com/search?q=a&num=10''
   \<and> num_param (maxResults_per_query plain_js (Some 0) 1) \<noteq> Num (max 3 (0 div int 1))"
  by (simp add: search_url_def maxResults_per_query_def num_param_def stripQuotes_def
      dquote_def show_int_def decimal_def safe_integer_def show_nat.simps plain_js_def)

text \<open>
  Claim C1, amended: in a run that reaches the navigation of its \<open>i\<close>-th of \<open>k\<close> queries,
  with a requested total that is a safe integer if there is one, the cap is
  \<open>max 3 (T div k)\<close> when a total \<open>T\<close> other than 0 is requested and 10 when no total or
  the total 0 is requested, and the page of that query is sent to the search address
  whose \<^verbatim>\<open>num\<close> parameter is this cap in decimal digits.
\<close>

theorem per_query_cap_in_search_url:
  assumes "\<not> falsy_query (query opts)" and "launch_ok w"
    and "i < length (queries_of (query opts))"
    and "newPage_ok (pipeline_world w i)" and "intercept_ok (pipeline_world w i)"
    and "\<forall>T. maxResults opts = Some T \<longrightarrow> safe_integer T"
  shows "(let k = length (queries_of (query opts));
              cap = (case maxResults opts of None \<Rightarrow> 10
                     | Some T \<Rightarrow> if T = 0 then 10 else max 3 (T div int k))
          in num_param (maxResults_per_query js (maxResults opts) k) = Num cap
             \<and> Goto (''https://www.google.com/search?q=''
                      @ encodeURIComponent js (stripQuotes (queries_of (query opts) ! i))
                      @ ''&num='' @ decimal cap)
                 \<in> set (page_log (pipelines (main js tm w opts) ! i)))"
proof -
  let ?k = "length (queries_of (query opts))"
  let ?m = "maxResults_per_query js (maxResults opts) ?k"
  let ?cap = "case maxResults opts of None \<Rightarrow> 10
              | Some T \<Rightarrow> if T = 0 then 10 else max 3 (T div int ?k)"
  have k: "1 \<le> ?k" using assms(3) by simp
  have cap: "num_param ?m = Num ?cap"
    by (rule num_param_per_query [OF k assms(6)])
  have safe: "safe_integer ?cap"
    by (rule safe_cap [OF k assms(6)])
  have "Goto (search_url js (queries_of (query opts) ! i) ?m)
          \<in> set (page_log (pipelines (main js tm w opts) ! i))"
    using assms(1-5) by (simp add: nth_pipelines_main goto_search_url)
  moreover have "search_url js (queries_of (query opts) ! i) ?m =
      ''https://www.google.com/search?q=''
        @ encodeURIComponent js (stripQuotes (queries_of (query opts) ! i))
        @ ''&num='' @ decimal ?cap"
    unfolding search_url_def cap using safe by (simp add: show_int_def)
  ultimately show ?thesis
    using cap by (simp add: Let_def)
qed

theorem per_query_cap_in_search_url_witness:
  "\<not> falsy_query (query sample_options) \<and> launch_ok fine_world
   \<and> 0 < length (queries_of (query sample_options))
   \<and> newPage_ok (pipeline_world fine_world 0) \<and> intercept_ok (pipeline_world fine_world 0)
   \<and> maxResults sample_options = Some 10 \<and> safe_integer 10
   \<and> num_param (maxResults_per_query plain_js (maxResults sample_options) 2) = Num 5
   \<and> Goto ''https://www.google.com/search?q=a&num=5''
       \<in> set (page_log (pipelines (main plain_js id fine_world sample_options) ! 0))"
proof -
  have safe: "\<forall>T. maxResults sample_options = Some T \<longrightarrow> safe_integer T"
    by (simp add: sample_options_def safe_integer_def)
  show ?thesis
    using per_query_cap_in_search_url [of sample_options fine_world 0 plain_js id, OF _ _ _ _ _ safe]
    by (simp add: sample_options_def fine_world_def fine_search_def stripQuotes_def
        dquote_def decimal_def show_nat.simps Let_def maxResults_per_query_def num_param_def
        safe_integer_def plain_js_def)
qed

section \<open>Candidate links are complete and in document order\<close>

lemma forEach_push_filter:
  "forEach_push els links =
     links @ map item_of (filter (\<lambda>el. title (item_of el) \<noteq> [] \<and> url (item_of el) \<noteq> []) els)"
  by (induction els arbitrary: links) (auto simp: Let_def)

lemma extract_links_filter:
  "extract_links els =
     map item_of (filter (\<lambda>el. title (item_of el) \<noteq> [] \<and> url (item_of el) \<noteq> []) els)"
  by (simp add: extract_links_def forEach_push_filter)

text \<open>
  Claim C6: whatever containers the result page has, every extracted candidate link has
  a title and an address that are not empty, and the links are those of the containers
  with a heading text and a link address that are not empty, in the order of the
  document; the other containers are skipped.
\<close>

theorem extract_links_complete_in_order:
  "(\<forall>l \<in> set (extract_links els). title l \<noteq> [] \<and> url l \<noteq> [])
   \<and> extract_links els =
       map item_of
         (filter (\<lambda>el. or_empty (h3_textContent el) \<noteq> []
                    \<and> or_empty (case a_href el of None \<Rightarrow> None | Some h \<Rightarrow> h) \<noteq> []) els)"
  by (auto simp: extract_links_filter item_of_def)

theorem extract_links_complete_in_order_witness:
  "extract_links sample_elements =
     [\<lparr> title = ''first'', url = ''u'', content = None \<rparr>,
      \<lparr> title = ''fourth'', url = ''v'', content = None \<rparr>,
      \<lparr> title = ''sixth'', url = ''w'', content = None \<rparr>]
   \<and> title (extract_links sample_elements ! 1) \<noteq> []
   \<and> url (extract_links sample_elements ! 1) \<noteq> []"
  using extract_links_complete_in_order [of sample_elements]
  by (simp add: sample_elements_def item_of_def)

section \<open>The outcome of a link visit\<close>

lemma visitLink_url:
  "status (visitLink tm v href s) = Inr r \<Longrightarrow> url r = href"
  by (auto simp: visitLink_def Let_def split: if_splits)

lemma visitLink_fulfilled_iff:
  "\<not> isl (status (visitLink tm v href s)) \<longleftrightarrow>
     newPage_ok v \<and> intercept_ok v \<and> goto_ok v \<and> addScriptTag_ok v \<and> evaluate_ok v
       \<and> close_ok v"
  by (simp add: visitLink_def Let_def)

lemma visitLink_close_count:
  "count_list (page_log (visitLink tm v href s)) Close =
     (if newPage_ok v \<and> intercept_ok v \<and> goto_ok v \<and> addScriptTag_ok v \<and> evaluate_ok v
      then 1 else 0)"
  by (simp add: visitLink_def Let_def)

lemma search_close_count: "count_list (page_log (search enc tm w q m t)) Close = 0"
  by (simp add: search_def Let_def)

section \<open>What a pipeline prints\<close>

lemma search_fulfilled:
  assumes "newPage_ok w" and "intercept_ok w" and "goto_ok w" and "evaluate_ok w"
  shows "search enc tm w q m t =
     \<lparr> settled_at =
         allSettled_at (t + took w)
           (map (\<lambda>(i, item). queue_add tm (link_world w i) (url item) (t + took w))
              (enumerate 0 (extract_links (elements w)))),
       status = Inr (),
       page_log = [NewPage, Intercept, Goto (search_url enc q m), Evaluate],
       console =
         [LinksLine q (extract_links (elements w)),
          ResultsLine q
            (final_results
              (map (\<lambda>(i, item). queue_add tm (link_world w i) (url item) (t + took w))
                 (enumerate 0 (extract_links (elements w)))))],
       tasks =
         map (\<lambda>(i, item). queue_add tm (link_world w i) (url item) (t + took w))
           (enumerate 0 (extract_links (elements w))) \<rparr>"
  using assms by (simp add: search_def Let_def)

lemma search_rejected:
  assumes "\<not> (newPage_ok w \<and> intercept_ok w \<and> goto_ok w \<and> evaluate_ok w)"
  shows "isl (status (search enc tm w q m t))"
    and "console (search enc tm w q m t) = []"
    and "tasks (search enc tm w q m t) = []"
    and "settled_at (search enc tm w q m t) = t + took w"
  using assms by (auto simp: search_def Let_def)

lemma console_search:
  "console (search enc tm w q m t) =
     (if newPage_ok w \<and> intercept_ok w \<and> goto_ok w \<and> evaluate_ok w
      then [LinksLine q (extract_links (elements w)),
            ResultsLine q (final_results (tasks (search enc tm w q m t)))]
      else [])"
  by (simp add: search_def Let_def)

lemma final_results_entry:
  assumes "v \<in> set (final_results ps)"
  shows "\<exists>r c. v = Some r \<and> content r = Some c \<and> c \<noteq> [] \<and> (\<exists>p \<in> set ps. status p = Inr r)"
proof -
  from assms obtain p where p: "p \<in> set ps" "v = fulfilled_value p" "truthy_content v"
    by (auto simp: final_results_def)
  from p(2,3) obtain r where r: "v = Some r" "status p = Inr r"
    by (cases "status p") auto
  from p(3) r(1) obtain c where "content r = Some c" "c \<noteq> []"
    by (cases "content r") auto
  with r p(1) show ?thesis by blast
qed

text \<open>
  Claim C4: whatever the world does, every entry of the results that a pipeline prints as
  its final result is the value of one of its fulfilled visits and has a content that is
  not empty; so neither a rejected visit nor a visit with empty content leaves an entry.
\<close>

theorem final_result_has_no_empty_content:
  assumes "ResultsLine q' rs \<in> set (console (search enc tm w q m t))" and "v \<in> set rs"
  shows "\<exists>r c. v = Some r \<and> content r = Some c \<and> c \<noteq> []
           \<and> (\<exists>p \<in> set (tasks (search enc tm w q m t)). status p = Inr r)"
proof -
  from assms(1) have "rs = final_results (tasks (search enc tm w q m t))"
    by (auto simp: console_search split: if_splits)
  with assms(2) have "v \<in> set (final_results (tasks (search enc tm w q m t)))"
    by simp
  then show ?thesis by (rule final_results_entry)
qed

theorem final_result_has_no_empty_content_witness:
  "ResultsLine ''q'' [Some \<lparr> title = ''doc'', url = ''w'', content = Some ''text'' \<rparr>]
     \<in> set (console (search plain_js id mixed_search ''q'' Undefined 0))
   \<and> map status (tasks (search plain_js id mixed_search ''q'' Undefined 0))
       = [Inl GotoFailed,
          Inr \<lparr> title = ''doc'', url = ''v'', content = Some [] \<rparr>,
          Inr \<lparr> title = ''doc'', url = ''w'', content = Some ''text'' \<rparr>]
   \<and> (\<exists>r c. Some \<lparr> title = ''doc'', url = ''w'', content = Some ''text'' \<rparr> = Some r
         \<and> content r = Some c \<and> c \<noteq> []
         \<and> (\<exists>p \<in> set (tasks (search plain_js id mixed_search ''q'' Undefined 0)). status p = Inr r))"
proof -
  have line: "ResultsLine ''q'' [Some \<lparr> title = ''doc'', url = ''w'', content = Some ''text'' \<rparr>]
     \<in> set (console (search plain_js id mixed_search ''q'' Undefined 0))"
    by (simp add: search_def mixed_search_def fine_search_def fine_visit_def
        sample_elements_def extract_links_def item_of_def final_results_def queue_add_def
        visitLink_def evaluate_article_def enumerate_eq_zip Let_def)
  have outcomes: "map status (tasks (search plain_js id mixed_search ''q'' Undefined 0))
       = [Inl GotoFailed,
          Inr \<lparr> title = ''doc'', url = ''v'', content = Some [] \<rparr>,
          Inr \<lparr> title = ''doc'', url = ''w'', content = Some ''text'' \<rparr>]"
    by (simp add: search_def mixed_search_def fine_search_def fine_visit_def
        sample_elements_def extract_links_def item_of_def queue_add_def
        visitLink_def evaluate_article_def enumerate_eq_zip Let_def)
  show ?thesis
    using line outcomes final_result_has_no_empty_content [OF line, of "Some \<lparr> title = ''doc'', url = ''w'', content = Some ''text'' \<rparr>"]
    by simp
qed

section \<open>Order of the outcomes\<close>

lemma tasks_search:
  assumes "newPage_ok w" and "intercept_ok w" and "goto_ok w" and "evaluate_ok w"
  shows "tasks (search enc tm w q m t) =
     map (\<lambda>(i, item). queue_add tm (link_world w i) (url item) (t + took w))
       (enumerate 0 (extract_links (elements w)))"
  using assms by (simp add: search_fulfilled)

lemma nth_tasks_search:
  assumes "newPage_ok w" and "intercept_ok w" and "goto_ok w" and "evaluate_ok w"
    and "i < length (extract_links (elements w))"
  shows "tasks (search enc tm w q m t) ! i =
     queue_add tm (link_world w i) (url (extract_links (elements w) ! i)) (t + took w)"
  using assms by (simp add: tasks_search nth_enumerate_eq)

lemma queue_add_url:
  "fulfilled_value (queue_add tm v href s) = Some r \<Longrightarrow> url r = href"
  by (auto simp: queue_add_def dest: visitLink_url split: sum.splits)

lemma truthy_content_Some: "truthy_content v \<Longrightarrow> \<exists>r. v = Some r"
  by (cases v) auto

lemma kept_urls_subseq:
  assumes "\<And>x r. x \<in> set xs \<Longrightarrow> f x = Some r \<Longrightarrow> url r = g x"
  shows "subseq (map (map_option url) (filter truthy_content (map f xs))) (map (\<lambda>x. Some (g x)) xs)"
  using assms
proof (induction xs)
  case Nil
  then show ?case by simp
next
  case (Cons x xs)
  have IH: "subseq (map (map_option url) (filter truthy_content (map f xs)))
              (map (\<lambda>x. Some (g x)) xs)"
    using Cons by simp
  show ?case
  proof (cases "truthy_content (f x)")
    case True
    then obtain r where r: "f x = Some r" using truthy_content_Some by blast
    then have "url r = g x" using Cons.prems by simp
    then show ?thesis using True r IH by simp
  next
    case False
    then show ?thesis using IH by (simp add: list_emb_Cons)
  qed
qed

lemma fulfilled_value_retimed:
  "fulfilled_value (queue_add tm (v\<lparr>took := d, queue_wait := e\<rparr>) href s) =
     fulfilled_value (queue_add tm v href s')"
  by (simp add: queue_add_def visitLink_def Let_def)

text \<open>
  Claim C5: a pipeline whose search visit succeeds has one task for each candidate link,
  task \<open>i\<close> being the queued visit of link \<open>i\<close>; it prints as its final result the
  outcomes filtered in that order, so the addresses of the surviving entries are a
  subsequence of the addresses of the candidate links; and the printed lines are the
  same whatever time each visit waits and takes, that is, in whatever order the visits
  complete.
\<close>

theorem outcomes_in_submission_order:
  assumes "newPage_ok w" and "intercept_ok w" and "goto_ok w" and "evaluate_ok w"
  shows "(let links = extract_links (elements w); P = search enc tm w q m t
          in length (tasks P) = length links
             \<and> (\<forall>i<length links.
                   tasks P ! i = queue_add tm (link_world w i) (url (links ! i)) (t + took w))
             \<and> console P =
                 [LinksLine q links,
                  ResultsLine q (filter truthy_content (map fulfilled_value (tasks P)))]
             \<and> subseq (map (map_option url) (final_results (tasks P)))
                 (map (\<lambda>l. Some (url l)) links)
             \<and> console (search enc tm
                   (w\<lparr>link_world := \<lambda>i. (link_world w i)\<lparr>took := d i, queue_wait := e i\<rparr>\<rparr>)
                   q m t)
                 = console P)"
proof -
  let ?links = "extract_links (elements w)"
  let ?P = "search enc tm w q m t"
  let ?w' = "w\<lparr>link_world := \<lambda>i. (link_world w i)\<lparr>took := d i, queue_wait := e i\<rparr>\<rparr>"
  let ?f = "\<lambda>(i, item). fulfilled_value (queue_add tm (link_world w i) (url item) (t + took w))"
  have len: "length (tasks ?P) = length ?links"
    using assms by (simp add: tasks_search)
  have nth: "\<forall>i<length ?links.
      tasks ?P ! i = queue_add tm (link_world w i) (url (?links ! i)) (t + took w)"
    using assms by (simp add: nth_tasks_search)
  have con: "console ?P =
      [LinksLine q ?links, ResultsLine q (filter truthy_content (map fulfilled_value (tasks ?P)))]"
    using assms by (simp add: console_search final_results_def)
  have fv: "map fulfilled_value (tasks ?P) = map ?f (enumerate 0 ?links)"
    using assms by (simp add: tasks_search split_def comp_def del: fulfilled_value.simps)
  have "subseq (map (map_option url) (filter truthy_content (map ?f (enumerate 0 ?links))))
          (map (\<lambda>x. Some (url (snd x))) (enumerate 0 ?links))"
    by (rule kept_urls_subseq) (auto dest: queue_add_url simp del: fulfilled_value.simps)
  moreover have "map (\<lambda>x. Some (url (snd x))) (enumerate 0 ?links) = map (\<lambda>l. Some (url l)) ?links"
  proof -
    have "map (\<lambda>x. Some (url (snd x))) (enumerate 0 ?links)
            = map (\<lambda>l. Some (url l)) (map snd (enumerate 0 ?links))"
      by (simp only: map_map comp_def)
    then show ?thesis by simp
  qed
  ultimately have sub: "subseq (map (map_option url) (final_results (tasks ?P)))
      (map (\<lambda>l. Some (url l)) ?links)"
    by (simp add: final_results_def fv del: fulfilled_value.simps)
  have ok': "newPage_ok ?w'" "intercept_ok ?w'" "goto_ok ?w'" "evaluate_ok ?w'"
    using assms by simp_all
  have "map fulfilled_value (tasks (search enc tm ?w' q m t)) = map fulfilled_value (tasks ?P)"
    using assms
    by (simp add: tasks_search [OF ok'] tasks_search split_def comp_def fulfilled_value_retimed [where s' = "t + took w"]
        del: fulfilled_value.simps)
  then have ret: "console (search enc tm ?w' q m t) = console ?P"
    using assms ok' by (simp add: console_search final_results_def)
  show ?thesis
    unfolding Let_def using len nth con sub ret by blast
qed


theorem outcomes_in_submission_order_witness:
  "newPage_ok mixed_search \<and> intercept_ok mixed_search \<and> goto_ok mixed_search
   \<and> evaluate_ok mixed_search
   \<and> map settled_at (tasks (search plain_js id mixed_search ''q'' Undefined 0)) = [12, 6, 6]
   \<and> length (tasks (search plain_js id mixed_search ''q'' Undefined 0)) = 3
   \<and> tasks (search plain_js id mixed_search ''q'' Undefined 0) ! 2
       = queue_add id (link_world mixed_search 2) ''w'' 2
   \<and> map (map_option url) (final_results (tasks (search plain_js id mixed_search ''q'' Undefined 0)))
       = [Some ''w'']
   \<and> subseq (map (map_option url)
               (final_results (tasks (search plain_js id mixed_search ''q'' Undefined 0))))
        [Some ''u'', Some ''v'', Some ''w'']"
proof -
  have ok: "newPage_ok mixed_search" "intercept_ok mixed_search" "goto_ok mixed_search"
    "evaluate_ok mixed_search"
    by (simp_all add: mixed_search_def fine_search_def)
  have links: "extract_links (elements mixed_search) =
     [\<lparr> title = ''first'', url = ''u'', content = None \<rparr>,
      \<lparr> title = ''fourth'', url = ''v'', content = None \<rparr>,
      \<lparr> title = ''sixth'', url = ''w'', content = None \<rparr>]"
    by (simp add: mixed_search_def fine_search_def sample_elements_def extract_links_def
        item_of_def)
  have took: "took mixed_search = 2"
    by (simp add: mixed_search_def fine_search_def)
  have times: "map settled_at (tasks (search plain_js id mixed_search ''q'' Undefined 0)) = [12, 6, 6]"
    unfolding tasks_search [OF ok] links took
    by (simp add: enumerate_eq_zip queue_add_def visitLink_def mixed_search_def
        fine_visit_def Let_def)
  have kept: "map (map_option url)
      (final_results (tasks (search plain_js id mixed_search ''q'' Undefined 0))) = [Some ''w'']"
    unfolding tasks_search [OF ok] links took
    by (simp add: enumerate_eq_zip queue_add_def visitLink_def mixed_search_def
        fine_visit_def final_results_def evaluate_article_def Let_def)
  note inst = outcomes_in_submission_order [OF ok, of plain_js id "''q''" Undefined 0 "\<lambda>i. 0" "\<lambda>i. 0",
      unfolded Let_def links took]
  have "length (tasks (search plain_js id mixed_search ''q'' Undefined 0)) = 3"
    using inst [THEN conjunct1] by simp
  moreover have "tasks (search plain_js id mixed_search ''q'' Undefined 0) ! 2
       = queue_add id (link_world mixed_search 2) ''w'' 2"
    using inst [THEN conjunct2, THEN conjunct1, rule_format, of 2]
    by (simp add: numeral_2_eq_2)
  moreover have "subseq (map (map_option url)
               (final_results (tasks (search plain_js id mixed_search ''q'' Undefined 0))))
        [Some ''u'', Some ''v'', Some ''w'']"
    using inst [THEN conjunct2, THEN conjunct2, THEN conjunct2, THEN conjunct1] by simp
  ultimately show ?thesis using ok times kept by simp
qed

section \<open>Closing the page of a visit\<close>

lemma visitLink_closes_on_success:
  assumes "status (visitLink tm v href s) = Inr r"
  shows "count_list (page_log (visitLink tm v href s)) Close = 1"
proof -
  from assms have "\<not> isl (status (visitLink tm v href s))" by simp
  then show ?thesis by (simp add: visitLink_fulfilled_iff visitLink_close_count)
qed

lemma visitLink_leaves_page_open:
  assumes "newPage_ok v"
    and "\<not> (intercept_ok v \<and> goto_ok v \<and> addScriptTag_ok v \<and> evaluate_ok v)"
  shows "count_list (page_log (visitLink tm v href s)) Close = 0"
  using assms by (simp add: visitLink_close_count)

text \<open>
  Claim C2: the page opened for a visit, search visit or link visit, is closed exactly
  once, on the path of success and on the path of failure. The code does not do this.
  \<^verbatim>\<open>visitLink\<close> closes its page on the path of success (line 215) and has no
  \<^verbatim>\<open>try\<close> and \<^verbatim>\<open>finally\<close> around the awaited calls, so a visit whose navigation throws
  has opened its page and never closes it; \<^verbatim>\<open>search\<close> never closes the page of the
  search visit, not even when it succeeds. The theorem runs the code on a link visit
  that succeeds, on one whose navigation throws, and on a search visit that succeeds.
\<close>

theorem visit_leaves_page_open:
  "status (visitLink id fine_visit ''u'' 0)
     = Inr \<lparr> title = ''doc'', url = ''u'', content = Some ''text'' \<rparr>
   \<and> count_list (page_log (visitLink id fine_visit ''u'' 0)) Close = 1
   \<and> newPage_ok (fine_visit\<lparr>goto_ok := False\<rparr>)
   \<and> status (visitLink id (fine_visit\<lparr>goto_ok := False\<rparr>) ''u'' 0) = Inl GotoFailed
   \<and> page_log (visitLink id (fine_visit\<lparr>goto_ok := False\<rparr>) ''u'' 0)
       = [NewPage, Intercept, Goto ''u'']
   \<and> count_list (page_log (visitLink id (fine_visit\<lparr>goto_ok := False\<rparr>) ''u'' 0)) Close = 0
   \<and> status (search plain_js id fine_search ''q'' Undefined 0) = Inr ()
   \<and> count_list (page_log (search plain_js id fine_search ''q'' Undefined 0)) Close = 0"
  by (simp add: visitLink_def fine_visit_def search_def fine_search_def
      evaluate_article_def Let_def)

section \<open>Exit code of the run\<close>

lemma action_missing_query:
  "falsy_query (query opts) \<Longrightarrow> action enc tm w opts = (Inl MissingQuery, [], [])"
  by (simp add: action_def)

lemma action_failed_launch:
  "\<not> falsy_query (query opts) \<Longrightarrow> \<not> launch_ok w
     \<Longrightarrow> action enc tm w opts = (Inl LaunchFailed, [(0, Launch)], [])"
  by (simp add: action_def Let_def)

text \<open>
  Claim C9: a run whose query is missing (absent or the empty string) ends with exit code
  1 and has called nothing on the browser, not even the launch; a run whose launch fails
  ends with exit code 1 and has started no pipeline.
\<close>

theorem missing_query_or_failed_launch_exit_code:
  "(falsy_query (query opts) \<longrightarrow>
      exit_status (main enc tm w opts) = 1 \<and> browser_log (main enc tm w opts) = []
        \<and> pipelines (main enc tm w opts) = [])
   \<and> (\<not> launch_ok w \<longrightarrow>
      exit_status (main enc tm w opts) = 1 \<and> pipelines (main enc tm w opts) = []
        \<and> CloseBrowser \<notin> snd ` set (browser_log (main enc tm w opts)))"
proof -
  have a: "exit_status (main enc tm w opts) = 1 \<and> browser_log (main enc tm w opts) = []
        \<and> pipelines (main enc tm w opts) = []" if "falsy_query (query opts)"
    using that by (simp add: main_def exit_status_def action_missing_query)
  have b: "exit_status (main enc tm w opts) = 1 \<and> pipelines (main enc tm w opts) = []
        \<and> CloseBrowser \<notin> snd ` set (browser_log (main enc tm w opts))" if "\<not> launch_ok w"
  proof (cases "falsy_query (query opts)")
    case True
    then show ?thesis using a by simp
  next
    case False
    then show ?thesis
      using that by (simp add: main_def exit_status_def action_failed_launch)
  qed
  from a b show ?thesis by blast
qed

theorem missing_query_or_failed_launch_exit_code_witness:
  "falsy_query (query (sample_options\<lparr>query := NoQuery\<rparr>))
   \<and> exit_status (main plain_js id fine_world (sample_options\<lparr>query := NoQuery\<rparr>)) = 1
   \<and> browser_log (main plain_js id fine_world (sample_options\<lparr>query := NoQuery\<rparr>)) = []
   \<and> \<not> launch_ok (fine_world\<lparr>launch_ok := False\<rparr>)
   \<and> exit_status (main plain_js id (fine_world\<lparr>launch_ok := False\<rparr>) sample_options) = 1
   \<and> pipelines (main plain_js id (fine_world\<lparr>launch_ok := False\<rparr>) sample_options) = []"
  using missing_query_or_failed_launch_exit_code
          [of "sample_options\<lparr>query := NoQuery\<rparr>" plain_js id fine_world]
        missing_query_or_failed_launch_exit_code
          [of sample_options plain_js id "fine_world\<lparr>launch_ok := False\<rparr>"]
  by (simp add: sample_options_def fine_world_def)

section \<open>When the browser is closed\<close>

lemma fold_max_ge_start: "a \<le> fold max xs (a::nat)"
proof (induction xs arbitrary: a)
  case Nil
  then show ?case by simp
next
  case (Cons x xs)
  have "max x a \<le> fold max xs (max x a)" by (rule Cons.IH)
  then show ?case by simp
qed

lemma fold_max_ge_member: "x \<in> set xs \<Longrightarrow> x \<le> fold max xs (a::nat)"
proof (induction xs arbitrary: a)
  case Nil
  then show ?case by simp
next
  case (Cons y ys)
  show ?case
  proof (cases "x = y")
    case True
    have "max y a \<le> fold max ys (max y a)" by (rule fold_max_ge_start)
    then show ?thesis using True by simp
  next
    case False
    then have "x \<in> set ys" using Cons.prems by simp
    then show ?thesis using Cons.IH by simp
  qed
qed

lemma earliest_member: "earliest r rs \<in> set (r # rs)"
  by (induction rs arbitrary: r) auto

lemma earliest_least: "x \<in> set (r # rs) \<Longrightarrow> fst (earliest r rs) \<le> fst x"
proof (induction rs arbitrary: r x)
  case Nil
  then show ?case by simp
next
  case (Cons r' rs)
  let ?m = "if fst r' < fst r then r' else r"
  have m: "fst ?m \<le> fst r" "fst ?m \<le> fst r'" by auto
  have "fst (earliest ?m rs) \<le> fst ?m"
    using Cons.IH [of ?m ?m] by simp
  moreover have "fst (earliest ?m rs) \<le> fst x" if "x \<in> set rs"
    using Cons.IH [of x ?m] that by simp
  ultimately show ?case using Cons.prems m by auto
qed

lemma in_rejections:
  "(t, e) \<in> set (rejections ps) \<longleftrightarrow> (\<exists>p \<in> set ps. status p = Inl e \<and> settled_at p = t)"
proof (induction ps)
  case Nil
  then show ?case by (simp add: rejections_def)
next
  case (Cons p ps)
  have "rejections (p # ps) =
      (case status p of Inl e \<Rightarrow> [(settled_at p, e)] | Inr v \<Rightarrow> []) @ rejections ps"
    by (simp add: rejections_def)
  then show ?case using Cons by (cases "status p") auto
qed

lemma rejections_Nil: "rejections ps = [] \<longleftrightarrow> (\<forall>p \<in> set ps. \<not> isl (status p))"
  by (induction ps) (auto simp: rejections_def split: sum.splits)

lemma Promise_all_rejects_iff:
  "isl (snd (Promise_all now ps)) \<longleftrightarrow> (\<exists>p \<in> set ps. isl (status p))"
  using rejections_Nil [of ps]
  by (cases "rejections ps") (auto simp: Promise_all_def)

lemma Promise_all_fulfilled_after:
  assumes "\<forall>p \<in> set ps. \<not> isl (status p)"
  shows "now \<le> fst (Promise_all now ps)"
    and "p \<in> set ps \<Longrightarrow> settled_at p \<le> fst (Promise_all now ps)"
  using assms rejections_Nil [of ps]
  by (simp_all add: Promise_all_def fold_max_ge_start fold_max_ge_member)

lemma Promise_all_rejected_at:
  assumes "\<exists>p \<in> set ps. isl (status p)"
  shows "\<exists>p \<in> set ps. isl (status p) \<and> settled_at p = fst (Promise_all now ps)"
    and "\<forall>p \<in> set ps. isl (status p) \<longrightarrow> fst (Promise_all now ps) \<le> settled_at p"
proof -
  from assms rejections_Nil [of ps] obtain r rs where rs: "rejections ps = r # rs"
    by (cases "rejections ps") auto
  then have at: "fst (Promise_all now ps) = fst (earliest r rs)"
    by (simp add: Promise_all_def)
  have "earliest r rs \<in> set (rejections ps)"
    using earliest_member [of r rs] rs by simp
  then have "(fst (earliest r rs), snd (earliest r rs)) \<in> set (rejections ps)" by simp
  then obtain p where p: "p \<in> set ps" "status p = Inl (snd (earliest r rs))"
    "settled_at p = fst (earliest r rs)"
    unfolding in_rejections by blast
  show "\<exists>p \<in> set ps. isl (status p) \<and> settled_at p = fst (Promise_all now ps)"
    using p at by (intro bexI [of _ p]) simp_all
  show "\<forall>p \<in> set ps. isl (status p) \<longrightarrow> fst (Promise_all now ps) \<le> settled_at p"
  proof (intro ballI impI)
    fix p assume p: "p \<in> set ps" "isl (status p)"
    then obtain e where "status p = Inl e" by (cases "status p") auto
    with p have "(settled_at p, e) \<in> set (r # rs)"
      using in_rejections [of "settled_at p" e ps] rs by auto
    from earliest_least [OF this] show "fst (Promise_all now ps) \<le> settled_at p"
      using at by simp
  qed
qed

lemma search_settles_after_start: "t \<le> settled_at (search enc tm w q m t)"
proof -
  have "t + took w \<le> allSettled_at (t + took w) ps" for ps :: "SearchResult promise list"
    by (simp add: allSettled_at_def fold_max_ge_start)
  then have "t \<le> allSettled_at (t + took w) ps" for ps :: "SearchResult promise list"
    using le_trans [OF le_add1] by blast
  then show ?thesis by (simp add: search_def Let_def)
qed

lemma task_settles_before_pipeline:
  assumes "k \<in> set (tasks (search enc tm w q m t))"
  shows "settled_at k \<le> settled_at (search enc tm w q m t)"
proof (cases "newPage_ok w \<and> intercept_ok w \<and> goto_ok w \<and> evaluate_ok w")
  case True
  then have ok: "newPage_ok w" "intercept_ok w" "goto_ok w" "evaluate_ok w" by simp_all
  have "settled_at (search enc tm w q m t) =
      allSettled_at (t + took w) (tasks (search enc tm w q m t))"
    by (simp add: search_fulfilled [OF ok])
  moreover have "settled_at k \<le> allSettled_at (t + took w) (tasks (search enc tm w q m t))"
    unfolding allSettled_at_def using assms by (intro fold_max_ge_member) simp
  ultimately show ?thesis by simp
next
  case False
  then show ?thesis using assms search_rejected(3) [OF False] by simp
qed

lemma action_launched:
  assumes "\<not> falsy_query (query opts)" and "launch_ok w"
  shows "fst (snd (action enc tm w opts)) =
     [(0, Launch),
      (fst (Promise_all (launch_took w) (snd (snd (action enc tm w opts)))), CloseBrowser)]"
    and "fst (action enc tm w opts) =
     (if dispose_ok w then snd (Promise_all (launch_took w) (snd (snd (action enc tm w opts))))
      else Inl DisposeFailed)"
  using assms by (simp_all add: action_def Let_def)

text \<open>
  Claim C8 says that the browser is released only after every pipeline and every queued
  visit has settled, on every exit path. \<^verbatim>\<open>Promise.all\<close> rejects at the first rejection:
  when the search visit of the first query fails at time 2, the block is left and the
  browser is closed at time 2, while the pipeline of the second query and its three
  visits settle at time 7.
\<close>

theorem early_release_counterexample:
  "browser_log (main plain_js id failing_first_world sample_options)
     = [(0, Launch), (2, CloseBrowser)]
   \<and> map settled_at (pipelines (main plain_js id failing_first_world sample_options)) = [2, 7]
   \<and> map settled_at (tasks (pipelines (main plain_js id failing_first_world sample_options) ! 1))
       = [7, 7, 7]"
  by (simp add: main_def action_def failing_first_world_def fine_world_def fine_search_def
      fine_visit_def sample_options_def sample_elements_def Promise_all_def rejections_def
      search_def extract_links_def item_of_def queue_add_def visitLink_def allSettled_at_def
      enumerate_eq_zip Let_def)

text \<open>
  Claim C8, amended: a run with a query whose launch succeeds calls the release of the
  browser exactly once, after the launch, on every exit path, also when a pipeline or
  the release itself throws. If every pipeline fulfils, the release comes after every
  pipeline and every queued visit has settled. If some pipeline rejects, the release
  comes at the earliest rejection and does not wait for the other pipelines. A run
  whose query is missing or whose launch fails has no browser and releases none.
\<close>

theorem browser_released_once:
  "(\<not> falsy_query (query opts) \<and> launch_ok w \<longrightarrow>
      (\<exists>t. browser_log (main enc tm w opts) = [(0, Launch), (t, CloseBrowser)]
         \<and> launch_took w \<le> t
         \<and> ((\<forall>p \<in> set (pipelines (main enc tm w opts)). \<not> isl (status p)) \<longrightarrow>
              (\<forall>p \<in> set (pipelines (main enc tm w opts)).
                 settled_at p \<le> t \<and> (\<forall>k \<in> set (tasks p). settled_at k \<le> t)))
         \<and> ((\<exists>p \<in> set (pipelines (main enc tm w opts)). isl (status p)) \<longrightarrow>
              (\<exists>p \<in> set (pipelines (main enc tm w opts)). isl (status p) \<and> settled_at p = t)
              \<and> (\<forall>p \<in> set (pipelines (main enc tm w opts)).
                    isl (status p) \<longrightarrow> t \<le> settled_at p))))
   \<and> (falsy_query (query opts) \<or> \<not> launch_ok w \<longrightarrow>
        CloseBrowser \<notin> snd ` set (browser_log (main enc tm w opts)))"
proof (intro conjI impI)
  assume "falsy_query (query opts) \<or> \<not> launch_ok w"
  then show "CloseBrowser \<notin> snd ` set (browser_log (main enc tm w opts))"
  proof (cases "falsy_query (query opts)")
    case True
    then show ?thesis by (simp add: browser_log_main action_missing_query)
  next
    case False
    assume "falsy_query (query opts) \<or> \<not> launch_ok w"
    with False have "\<not> launch_ok w" by simp
    with False show ?thesis by (simp add: browser_log_main action_failed_launch)
  qed
next
  assume run: "\<not> falsy_query (query opts) \<and> launch_ok w"
  then have q: "\<not> falsy_query (query opts)" and l: "launch_ok w" by simp_all
  let ?ps = "pipelines (main enc tm w opts)"
  let ?t = "fst (Promise_all (launch_took w) ?ps)"
  have log: "browser_log (main enc tm w opts) = [(0, Launch), (?t, CloseBrowser)]"
    by (simp add: browser_log_main pipelines_main action_launched(1) [OF q l])
  have started: "launch_took w \<le> settled_at p" if "p \<in> set ?ps" for p
  proof -
    from that obtain i where "i < length ?ps" "p = ?ps ! i"
      by (auto simp: in_set_conv_nth)
    then show ?thesis
      using q l by (simp add: length_pipelines_main nth_pipelines_main search_settles_after_start)
  qed
  have inner: "settled_at k \<le> settled_at p" if "p \<in> set ?ps" "k \<in> set (tasks p)" for p k
  proof -
    from that(1) obtain i where "i < length ?ps" "p = ?ps ! i"
      by (auto simp: in_set_conv_nth)
    then show ?thesis
      using q l that(2)
      by (simp add: length_pipelines_main nth_pipelines_main task_settles_before_pipeline)
  qed
  have all_ok: "\<forall>p \<in> set ?ps. settled_at p \<le> ?t \<and> (\<forall>k \<in> set (tasks p). settled_at k \<le> ?t)"
    if ok: "\<forall>p \<in> set ?ps. \<not> isl (status p)"
  proof (intro ballI conjI)
    fix p assume p: "p \<in> set ?ps"
    show pt: "settled_at p \<le> ?t" using Promise_all_fulfilled_after(2) [OF ok p] .
    fix k assume "k \<in> set (tasks p)"
    then have "settled_at k \<le> settled_at p" using inner p by simp
    then show "settled_at k \<le> ?t" using pt by simp
  qed
  have some_bad: "(\<exists>p \<in> set ?ps. isl (status p) \<and> settled_at p = ?t)
      \<and> (\<forall>p \<in> set ?ps. isl (status p) \<longrightarrow> ?t \<le> settled_at p)"
    if bad: "\<exists>p \<in> set ?ps. isl (status p)"
    using Promise_all_rejected_at [OF bad] by simp
  have after_launch: "launch_took w \<le> ?t"
  proof (cases "\<forall>p \<in> set ?ps. \<not> isl (status p)")
    case True
    then show ?thesis by (rule Promise_all_fulfilled_after(1))
  next
    case False
    then have "\<exists>p \<in> set ?ps. isl (status p)" by simp
    from some_bad [OF this] obtain p where "p \<in> set ?ps" "settled_at p = ?t" by blast
    then show ?thesis using started by metis
  qed
  show "\<exists>t. browser_log (main enc tm w opts) = [(0, Launch), (t, CloseBrowser)]
         \<and> launch_took w \<le> t
         \<and> ((\<forall>p \<in> set ?ps. \<not> isl (status p)) \<longrightarrow>
              (\<forall>p \<in> set ?ps. settled_at p \<le> t \<and> (\<forall>k \<in> set (tasks p). settled_at k \<le> t)))
         \<and> ((\<exists>p \<in> set ?ps. isl (status p)) \<longrightarrow>
              (\<exists>p \<in> set ?ps. isl (status p) \<and> settled_at p = t)
              \<and> (\<forall>p \<in> set ?ps. isl (status p) \<longrightarrow> t \<le> settled_at p))"
    using log after_launch all_ok some_bad by (intro exI [of _ ?t]) blast
qed


theorem browser_released_once_witness:
  "\<not> falsy_query (query sample_options) \<and> launch_ok fine_world
   \<and> launch_ok failing_first_world
   \<and> map (\<lambda>p. isl (status p)) (pipelines (main plain_js id fine_world sample_options))
       = [False, False]
   \<and> (\<exists>t. browser_log (main plain_js id fine_world sample_options)
              = [(0, Launch), (t, CloseBrowser)]
          \<and> 7 \<le> t)
   \<and> map (\<lambda>p. isl (status p)) (pipelines (main plain_js id failing_first_world sample_options))
       = [True, False]
   \<and> (\<exists>t. browser_log (main plain_js id failing_first_world sample_options)
              = [(0, Launch), (t, CloseBrowser)]
          \<and> t \<le> 2)
   \<and> CloseBrowser
       \<notin> snd ` set (browser_log (main plain_js id (fine_world\<lparr>launch_ok := False\<rparr>) sample_options))"
proof -
  let ?fine = "main plain_js id fine_world sample_options"
  let ?bad = "main plain_js id failing_first_world sample_options"
  let ?broken = "fine_search\<lparr>goto_ok := False, took := 1\<rparr>"
  have q: "\<not> falsy_query (query sample_options)"
    by (simp add: sample_options_def)
  have l: "launch_ok fine_world" "launch_ok failing_first_world"
    by (simp_all add: fine_world_def failing_first_world_def)
  have nl: "\<not> launch_ok (fine_world\<lparr>launch_ok := False\<rparr>)"
    by simp
  have fine_ps: "pipelines ?fine =
      [search plain_js id fine_search ''a'' (Num 5) 1, search plain_js id fine_search ''b'' (Num 5) 1]"
    unfolding pipelines_main action_pipelines [OF q l(1)]
    by (simp add: sample_options_def fine_world_def maxResults_per_query_def safe_integer_def enumerate_eq_zip)
  have bad_ps: "pipelines ?bad =
      [search plain_js id ?broken ''a'' (Num 5) 1, search plain_js id fine_search ''b'' (Num 5) 1]"
    unfolding pipelines_main action_pipelines [OF q l(2)]
    by (simp add: sample_options_def fine_world_def failing_first_world_def
        maxResults_per_query_def safe_integer_def enumerate_eq_zip)
  have fine_search_run: "status (search plain_js id fine_search x m s) = Inr ()"
    "settled_at (search plain_js id fine_search x m s) = s + 6" for x m s
    by (simp_all add: search_def fine_search_def fine_visit_def sample_elements_def
        extract_links_def item_of_def queue_add_def visitLink_def allSettled_at_def
        enumerate_eq_zip Let_def)
  have broken_run:
    "status (search plain_js id (fine_search\<lparr>goto_ok := False, took := d\<rparr>) x m s) = Inl GotoFailed"
    "settled_at (search plain_js id (fine_search\<lparr>goto_ok := False, took := d\<rparr>) x m s) = s + d"
    for x m s d
    by (simp_all add: search_def fine_search_def Let_def)
  have fine_all: "\<forall>p \<in> set (pipelines ?fine). \<not> isl (status p)"
    by (simp add: fine_ps fine_search_run)
  have bad_some: "\<exists>p \<in> set (pipelines ?bad). isl (status p)"
    by (simp add: bad_ps broken_run)
  from browser_released_once [of sample_options fine_world plain_js id] q l(1) fine_all
  obtain t1 where t1: "browser_log ?fine = [(0, Launch), (t1, CloseBrowser)]"
    "\<forall>p \<in> set (pipelines ?fine). settled_at p \<le> t1 \<and> (\<forall>k \<in> set (tasks p). settled_at k \<le> t1)"
    by blast
  from t1(2) have "7 \<le> t1"
    by (simp add: fine_ps fine_search_run)
  from browser_released_once [of sample_options failing_first_world plain_js id] q l(2) bad_some
  obtain t2 where t2: "browser_log ?bad = [(0, Launch), (t2, CloseBrowser)]"
    "\<forall>p \<in> set (pipelines ?bad). isl (status p) \<longrightarrow> t2 \<le> settled_at p"
    by blast
  from t2(2) have "t2 \<le> 2"
    by (simp add: bad_ps broken_run)
  have none: "CloseBrowser
       \<notin> snd ` set (browser_log (main plain_js id (fine_world\<lparr>launch_ok := False\<rparr>) sample_options))"
    using browser_released_once [of sample_options "fine_world\<lparr>launch_ok := False\<rparr>" plain_js id] nl
    by blast
  show ?thesis
    using q l t1(1) \<open>7 \<le> t1\<close> t2(1) \<open>t2 \<le> 2\<close> none
    by (simp add: fine_ps bad_ps fine_search_run broken_run)
qed

section \<open>A link visit that fails\<close>

lemma queue_add_rejected:
  assumes "\<not> (newPage_ok v \<and> intercept_ok v \<and> goto_ok v \<and> addScriptTag_ok v
             \<and> evaluate_ok v \<and> close_ok v)"
  shows "isl (status (queue_add tm v href s))"
  using assms visitLink_fulfilled_iff [of tm v href "s + queue_wait v"]
  unfolding queue_add_def by blast

lemma status_search_link_world:
  "status (search enc tm (w\<lparr>link_world := lw\<rparr>) q m t) = status (search enc tm w q m t)"
  by (simp add: search_def Let_def)

lemma final_results_append:
  "final_results (xs @ ys) = final_results xs @ final_results ys"
  by (simp add: final_results_def)

lemma final_results_rejected:
  "isl (status p) \<Longrightarrow> final_results (p # ps) = final_results ps"
  by (cases "status p") (simp_all add: final_results_def)

lemma final_results_update_rejected:
  assumes "i < length xs" and "isl (status p)"
  shows "final_results (xs[i := p]) = final_results (take i xs) @ final_results (drop (Suc i) xs)"
  using assms
  by (simp add: upd_conv_take_nth_drop final_results_append final_results_rejected)

lemma tasks_search_link_update:
  assumes "newPage_ok w" and "intercept_ok w" and "goto_ok w" and "evaluate_ok w"
  shows "tasks (search enc tm (w\<lparr>link_world := (link_world w)(i := v)\<rparr>) q m t) =
     (tasks (search enc tm w q m t))
       [i := queue_add tm v (url (extract_links (elements w) ! i)) (t + took w)]"
proof -
  let ?w' = "w\<lparr>link_world := (link_world w)(i := v)\<rparr>"
  have ok': "newPage_ok ?w'" "intercept_ok ?w'" "goto_ok ?w'" "evaluate_ok ?w'"
    using assms by simp_all
  show ?thesis
  proof (rule nth_equalityI)
    show "length (tasks (search enc tm ?w' q m t)) =
        length ((tasks (search enc tm w q m t))
          [i := queue_add tm v (url (extract_links (elements w) ! i)) (t + took w)])"
      by (simp add: tasks_search [OF ok'] tasks_search [OF assms])
  next
    fix j assume "j < length (tasks (search enc tm ?w' q m t))"
    then have j: "j < length (extract_links (elements w))"
      by (simp add: tasks_search [OF ok'])
    have j': "j < length (extract_links (elements ?w'))" using j by simp
    have new: "tasks (search enc tm ?w' q m t) ! j =
        queue_add tm (if j = i then v else link_world w j)
          (url (extract_links (elements w) ! j)) (t + took w)"
      using nth_tasks_search [OF ok' j', of enc tm q m t] by simp
    have old: "tasks (search enc tm w q m t) ! j =
        queue_add tm (link_world w j) (url (extract_links (elements w) ! j)) (t + took w)"
      by (rule nth_tasks_search [OF assms j])
    show "tasks (search enc tm ?w' q m t) ! j =
        (tasks (search enc tm w q m t))
          [i := queue_add tm v (url (extract_links (elements w) ! i)) (t + took w)] ! j"
    proof (cases "j = i")
      case True
      have "j < length (tasks (search enc tm w q m t))"
        using j by (simp add: tasks_search [OF assms])
      then show ?thesis
        using True new by simp
    next
      case False
      then show ?thesis
        using new old by simp
    qed
  qed
qed

lemma exitCode_main_launched:
  assumes "\<not> falsy_query (query opts)" and "launch_ok w"
  shows "exitCode (main enc tm w opts) =
     (if dispose_ok w \<and> (\<forall>p \<in> set (pipelines (main enc tm w opts)). \<not> isl (status p))
      then None else Some 1)"
  using Promise_all_rejects_iff [of "launch_took w" "pipelines (main enc tm w opts)"]
  by (simp add: exitCode_main action_launched(2) [OF assms] pipelines_main)

lemma ex_rejected_conv_nth:
  "(\<exists>p \<in> set ps. isl (status p)) \<longleftrightarrow> (\<exists>n < length ps. isl (status (ps ! n)))"
  by (metis in_set_conv_nth)

text \<open>
  Claim C7: in a run with a query and a launched browser, let the visit of link \<open>i\<close> of
  query \<open>k\<close> fail, in a world that is otherwise the same. Then the exit code of the run is
  the same; every other pipeline is the same; the owning pipeline still fulfils, with the
  same number of tasks; every sibling task is the same; task \<open>i\<close> is a rejected
  settlement; and the printed final result is the one of the sibling outcomes, with no
  entry for link \<open>i\<close>.
\<close>

theorem link_failure_is_isolated:
  assumes "\<not> falsy_query (query opts)" and "launch_ok w"
    and "k < length (queries_of (query opts))"
    and "i < length (tasks (pipelines (main enc tm w opts) ! k))"
    and "\<not> (newPage_ok v \<and> intercept_ok v \<and> goto_ok v \<and> addScriptTag_ok v
             \<and> evaluate_ok v \<and> close_ok v)"
    and "w' = w\<lparr>pipeline_world := (pipeline_world w)
                 (k := (pipeline_world w k)
                    \<lparr>link_world := (link_world (pipeline_world w k))(i := v)\<rparr>)\<rparr>"
  shows "exitCode (main enc tm w' opts) = exitCode (main enc tm w opts)
    \<and> length (pipelines (main enc tm w' opts)) = length (pipelines (main enc tm w opts))
    \<and> (\<forall>n < length (pipelines (main enc tm w opts)).
          n \<noteq> k \<longrightarrow> pipelines (main enc tm w' opts) ! n = pipelines (main enc tm w opts) ! n)
    \<and> status (pipelines (main enc tm w' opts) ! k) = Inr ()
    \<and> length (tasks (pipelines (main enc tm w' opts) ! k))
        = length (tasks (pipelines (main enc tm w opts) ! k))
    \<and> (\<forall>j < length (tasks (pipelines (main enc tm w opts) ! k)).
          j \<noteq> i \<longrightarrow> tasks (pipelines (main enc tm w' opts) ! k) ! j
                      = tasks (pipelines (main enc tm w opts) ! k) ! j)
    \<and> isl (status (tasks (pipelines (main enc tm w' opts) ! k) ! i))
    \<and> console (pipelines (main enc tm w' opts) ! k) =
        [LinksLine (queries_of (query opts) ! k) (extract_links (elements (pipeline_world w k))),
         ResultsLine (queries_of (query opts) ! k)
           (final_results (take i (tasks (pipelines (main enc tm w opts) ! k)))
            @ final_results (drop (Suc i) (tasks (pipelines (main enc tm w opts) ! k))))]"
proof -
  let ?qs = "queries_of (query opts)"
  let ?m = "maxResults_per_query enc (maxResults opts) (length ?qs)"
  let ?t = "launch_took w"
  let ?sw = "pipeline_world w k"
  let ?sw' = "?sw\<lparr>link_world := (link_world ?sw)(i := v)\<rparr>"
  let ?P = "search enc tm ?sw (?qs ! k) ?m ?t"
  let ?P' = "search enc tm ?sw' (?qs ! k) ?m ?t"
  let ?bad = "queue_add tm v (url (extract_links (elements ?sw) ! i)) (?t + took ?sw)"
  note q = assms(1) and l = assms(2) and k = assms(3) and w' = assms(6)
  have l': "launch_ok w'" and t': "launch_took w' = ?t" and d': "dispose_ok w' = dispose_ok w"
    using l w' by simp_all
  have pw_k: "pipeline_world w' k = ?sw'" using w' by simp
  have pw_n: "pipeline_world w' n = pipeline_world w n" if "n \<noteq> k" for n
    using that w' by simp
  have len: "length (pipelines (main enc tm w' opts)) = length (pipelines (main enc tm w opts))"
    by (simp add: length_pipelines_main [OF q l] length_pipelines_main [OF q l'])
  have P: "pipelines (main enc tm w opts) ! k = ?P"
    by (simp add: nth_pipelines_main [OF q l k])
  have P': "pipelines (main enc tm w' opts) ! k = ?P'"
    by (simp add: nth_pipelines_main [OF q l' k] pw_k t')
  have others: "pipelines (main enc tm w' opts) ! n = pipelines (main enc tm w opts) ! n"
    if "n < length (pipelines (main enc tm w opts))" "n \<noteq> k" for n
  proof -
    from that(1) have n: "n < length ?qs" by (simp add: length_pipelines_main [OF q l])
    show ?thesis
      by (simp add: nth_pipelines_main [OF q l n] nth_pipelines_main [OF q l' n]
          pw_n [OF that(2)] t')
  qed
  have i: "i < length (tasks ?P)" using assms(4) P by simp
  have ok: "newPage_ok ?sw" "intercept_ok ?sw" "goto_ok ?sw" "evaluate_ok ?sw"
  proof -
    have "newPage_ok ?sw \<and> intercept_ok ?sw \<and> goto_ok ?sw \<and> evaluate_ok ?sw"
    proof (rule ccontr)
      assume "\<not> ?thesis"
      from search_rejected(3) [OF this] have "tasks ?P = []" .
      with i show False by simp
    qed
    then show "newPage_ok ?sw" "intercept_ok ?sw" "goto_ok ?sw" "evaluate_ok ?sw"
      by simp_all
  qed
  have ok': "newPage_ok ?sw'" "intercept_ok ?sw'" "goto_ok ?sw'" "evaluate_ok ?sw'"
    using ok by simp_all
  have bad: "isl (status ?bad)" using assms(5) by (rule queue_add_rejected)
  have tasks': "tasks ?P' = (tasks ?P)[i := ?bad]"
    by (rule tasks_search_link_update [OF ok])
  have st: "status ?P' = Inr ()"
    by (simp add: search_fulfilled [OF ok'])
  have st_same: "status ?P' = status ?P"
    by (rule status_search_link_world)
  have statuses: "isl (status (pipelines (main enc tm w' opts) ! n))
      = isl (status (pipelines (main enc tm w opts) ! n))"
    if "n < length (pipelines (main enc tm w opts))" for n
    using that others [OF that] P P' st_same by (cases "n = k") simp_all
  have rejected_same: "(\<exists>p \<in> set (pipelines (main enc tm w' opts)). isl (status p))
      \<longleftrightarrow> (\<exists>p \<in> set (pipelines (main enc tm w opts)). isl (status p))"
    unfolding ex_rejected_conv_nth len using statuses by auto
  have exit_same: "exitCode (main enc tm w' opts) = exitCode (main enc tm w opts)"
    unfolding exitCode_main_launched [OF q l] exitCode_main_launched [OF q l'] d'
    using rejected_same by auto
  have siblings: "tasks ?P' ! j = tasks ?P ! j" if "j < length (tasks ?P)" "j \<noteq> i" for j
    using that by (simp add: tasks')
  have failed: "isl (status (tasks ?P' ! i))"
    using i bad by (simp add: tasks')
  have printed: "console ?P' =
      [LinksLine (?qs ! k) (extract_links (elements ?sw)),
       ResultsLine (?qs ! k)
         (final_results (take i (tasks ?P)) @ final_results (drop (Suc i) (tasks ?P)))]"
    using ok' by (simp add: console_search tasks' final_results_update_rejected [OF i bad])
  show ?thesis
    unfolding P P'
    using exit_same len others st siblings failed printed
    by (simp add: tasks' P)
qed


theorem link_failure_is_isolated_witness:
  "\<not> falsy_query (query sample_options) \<and> launch_ok fine_world
   \<and> 0 < length (queries_of (query sample_options))
   \<and> length (tasks (pipelines (main plain_js id fine_world sample_options) ! 0)) = 3
   \<and> \<not> goto_ok (fine_visit\<lparr>goto_ok := False\<rparr>)
   \<and> exitCode (main plain_js id fine_world sample_options) = None
   \<and> exitCode (main plain_js id first_link_fails_world sample_options) = None
   \<and> pipelines (main plain_js id first_link_fails_world sample_options) ! 1
       = pipelines (main plain_js id fine_world sample_options) ! 1
   \<and> status (pipelines (main plain_js id first_link_fails_world sample_options) ! 0) = Inr ()
   \<and> isl (status (tasks (pipelines (main plain_js id first_link_fails_world sample_options) ! 0) ! 0))
   \<and> tasks (pipelines (main plain_js id first_link_fails_world sample_options) ! 0) ! 2
       = tasks (pipelines (main plain_js id fine_world sample_options) ! 0) ! 2
   \<and> console (pipelines (main plain_js id first_link_fails_world sample_options) ! 0) =
       [LinksLine ''a''
          [\<lparr> title = ''first'', url = ''u'', content = None \<rparr>,
           \<lparr> title = ''fourth'', url = ''v'', content = None \<rparr>,
           \<lparr> title = ''sixth'', url = ''w'', content = None \<rparr>],
        ResultsLine ''a''
          [Some \<lparr> title = ''doc'', url = ''v'', content = Some ''text'' \<rparr>,
           Some \<lparr> title = ''doc'', url = ''w'', content = Some ''text'' \<rparr>]]"
proof -
  let ?R = "main plain_js id fine_world sample_options"
  let ?R' = "main plain_js id first_link_fails_world sample_options"
  let ?v = "fine_visit\<lparr>goto_ok := False\<rparr>"
  have q: "\<not> falsy_query (query sample_options)"
    by (simp add: sample_options_def)
  have l: "launch_ok fine_world"
    by (simp add: fine_world_def)
  have k: "0 < length (queries_of (query sample_options))"
    by (simp add: sample_options_def)
  have v: "\<not> (newPage_ok ?v \<and> intercept_ok ?v \<and> goto_ok ?v \<and> addScriptTag_ok ?v
             \<and> evaluate_ok ?v \<and> close_ok ?v)"
    by simp
  have links: "extract_links (elements fine_search) =
     [\<lparr> title = ''first'', url = ''u'', content = None \<rparr>,
      \<lparr> title = ''fourth'', url = ''v'', content = None \<rparr>,
      \<lparr> title = ''sixth'', url = ''w'', content = None \<rparr>]"
    by (simp add: fine_search_def sample_elements_def extract_links_def item_of_def)
  have ok: "newPage_ok fine_search" "intercept_ok fine_search" "goto_ok fine_search"
    "evaluate_ok fine_search"
    by (simp_all add: fine_search_def)
  have P0: "pipelines ?R ! 0 =
      search plain_js id (pipeline_world fine_world 0) (queries_of (query sample_options) ! 0)
        (maxResults_per_query plain_js (maxResults sample_options)
           (length (queries_of (query sample_options))))
        (launch_took fine_world)"
    by (rule nth_pipelines_main [OF q l k])
  have pw: "pipeline_world fine_world 0 = fine_search"
    by (simp add: fine_world_def)
  have q0: "queries_of (query sample_options) ! 0 = ''a''"
    by (simp add: sample_options_def)
  have T: "tasks (search plain_js id fine_search x m s) =
      [queue_add id fine_visit ''u'' (s + took fine_search),
       queue_add id fine_visit ''v'' (s + took fine_search),
       queue_add id fine_visit ''w'' (s + took fine_search)]" for x m s
    unfolding tasks_search [OF ok] links
    by (simp add: enumerate_eq_zip fine_search_def)
  have settled: "fulfilled_value (queue_add id fine_visit x s)
      = Some \<lparr> title = ''doc'', url = x, content = Some ''text'' \<rparr>" for x s
    by (simp add: queue_add_def visitLink_def fine_visit_def evaluate_article_def Let_def)
  have len: "length (tasks (pipelines ?R ! 0)) = 3"
    unfolding P0 pw by (simp add: T)
  then have i: "0 < length (tasks (pipelines ?R ! 0))"
    by simp
  have fine_exit: "exitCode ?R = None"
    by (simp add: main_def action_def fine_world_def fine_search_def sample_options_def
        Promise_all_def rejections_def search_def enumerate_eq_zip Let_def)
  note inst = link_failure_is_isolated
      [OF q l k i v first_link_fails_world_def]
  have "exitCode ?R' = None"
    using inst [THEN conjunct1] fine_exit by simp
  moreover have "pipelines ?R' ! 1 = pipelines ?R ! 1"
  proof -
    have "length (pipelines ?R) = 2"
      unfolding length_pipelines_main [OF q l] by (simp add: sample_options_def)
    then show ?thesis
      using inst [THEN conjunct2, THEN conjunct2, THEN conjunct1, rule_format, of 1] by simp
  qed
  moreover have "status (pipelines ?R' ! 0) = Inr ()"
    using inst [THEN conjunct2, THEN conjunct2, THEN conjunct2, THEN conjunct1] .
  moreover have "tasks (pipelines ?R' ! 0) ! 2 = tasks (pipelines ?R ! 0) ! 2"
    using inst [THEN conjunct2, THEN conjunct2, THEN conjunct2, THEN conjunct2,
        THEN conjunct2, THEN conjunct1, rule_format, of 2] len
    by simp
  moreover have "isl (status (tasks (pipelines ?R' ! 0) ! 0))"
    using inst [THEN conjunct2, THEN conjunct2, THEN conjunct2, THEN conjunct2,
        THEN conjunct2, THEN conjunct2, THEN conjunct1] .
  moreover have "console (pipelines ?R' ! 0) =
       [LinksLine ''a''
          [\<lparr> title = ''first'', url = ''u'', content = None \<rparr>,
           \<lparr> title = ''fourth'', url = ''v'', content = None \<rparr>,
           \<lparr> title = ''sixth'', url = ''w'', content = None \<rparr>],
        ResultsLine ''a''
          [Some \<lparr> title = ''doc'', url = ''v'', content = Some ''text'' \<rparr>,
           Some \<lparr> title = ''doc'', url = ''w'', content = Some ''text'' \<rparr>]]"
    using inst [THEN conjunct2, THEN conjunct2, THEN conjunct2, THEN conjunct2,
        THEN conjunct2, THEN conjunct2, THEN conjunct2]
    unfolding P0 pw q0 links T
    by (simp add: final_results_def settled del: fulfilled_value.simps)
  ultimately show ?thesis
    using q l k len fine_exit by simp
qed

end
